theory Spec2Isabelle
  imports Main
begin

section \<open>Cards and the deck\<close>

text \<open>
  The embedding follows \<^verbatim>\<open>src/blackjack.py\<close>. A \<^verbatim>\<open>Card\<close> is the dataclass with its two
  fields; nothing in the type ties the value to the face, exactly as in the source.
\<close>

record Card =
  face :: string
  "value" :: int

text \<open>
  Python's \<^verbatim>\<open>str(i)\<close> on an integer: the decimal digits, with a minus sign for a negative
  number. The deck table only calls it on 2..10.
\<close>

fun digits :: "nat \<Rightarrow> string" where
  "digits n =
     (if n < 10 then [''0123456789'' ! n]
      else digits (n div 10) @ [''0123456789'' ! (n mod 10)])"

declare digits.simps [simp del]

definition str :: "int \<Rightarrow> string" where
  "str i = (if i < 0 then ''-'' @ digits (nat (- i)) else digits (nat i))"

text \<open>
  \<^verbatim>\<open>Deck.cards\<close>: the Ace, the number cards built by the list comprehension over
  \<^verbatim>\<open>range(2, 11)\<close>, and the three court cards.
\<close>

definition cards :: "Card list" where
  "cards =
     [\<lparr>face = ''A'', value = 1\<rparr>]
     @ map (\<lambda>i. \<lparr>face = str i, value = i\<rparr>) [2..10]
     @ [\<lparr>face = ''J'', value = 10\<rparr>, \<lparr>face = ''Q'', value = 10\<rparr>, \<lparr>face = ''K'', value = 10\<rparr>]"

text \<open>
  The deck owns a random generator (\<^verbatim>\<open>random.Random(seed)\<close>, or the module's global one).
  The generator is library code; it is modelled as the infinite sequence \<open>rand\<close> of raw
  numbers that the seed determines, together with the position \<open>pos\<close> of the next unread
  number. Nothing is assumed about the sequence. \<^verbatim>\<open>rand.choice(seq)\<close> returns
  \<^verbatim>\<open>seq[k]\<close> for some \<open>0 \<le> k < len(seq)\<close>: here the next raw number reduced modulo the
  length of the table, so that every element of the table can be drawn and nothing else.
\<close>

record Deck =
  rand :: "nat \<Rightarrow> nat"
  pos :: nat

definition draw_card :: "Deck \<Rightarrow> Card \<times> Deck" where
  "draw_card d = (cards ! (rand d (pos d) mod length cards), d\<lparr>pos := pos d + 1\<rparr>)"

text \<open>The comprehension \<^verbatim>\<open>[self.deck.draw_card() for _ in range(n)]\<close>.\<close>

fun draw_cards :: "nat \<Rightarrow> Deck \<Rightarrow> Card list \<times> Deck" where
  "draw_cards 0 d = ([], d)"
| "draw_cards (Suc n) d =
     (let (c, d1) = draw_card d; (cs, d2) = draw_cards n d1 in (c # cs, d2))"

section \<open>Actions and observable states\<close>

datatype BlackjackAction = HIT | STICK

record BlackjackState =
  player_sum :: int
  usable_ace :: bool
  dealer_showing :: int
  terminal :: bool

text \<open>
  \<^verbatim>\<open>BlackjackState.all_states\<close>: the set built from \<^verbatim>\<open>itertools.product\<close> over the four
  ranges; \<^verbatim>\<open>range(2, 31)\<close> is \<open>[2..30]\<close> and \<^verbatim>\<open>range(1, 11)\<close> is \<open>[1..10]\<close>.
\<close>

definition all_states :: "BlackjackState set" where
  "all_states =
     set (map (\<lambda>(p, u, d, t). \<lparr>player_sum = p, usable_ace = u, dealer_showing = d, terminal = t\<rparr>)
            (List.product [2..30] (List.product [False, True] (List.product [1..10] [False, True]))))"

section \<open>The game engine\<close>

text \<open>
  The attributes of a \<^verbatim>\<open>Blackjack\<close> object. Rendering (\<^verbatim>\<open>render\<close>, run when \<open>verbose\<close> is
  set) only prints and changes no attribute, so it has no counterpart below.
\<close>

record Blackjack =
  deck :: Deck
  verbose :: bool
  turn :: string
  player_cards :: "Card list"
  dealer_cards :: "Card list"
  in_play :: bool

text \<open>
  The two ways a call can raise: the \<^verbatim>\<open>assert self.in_play\<close> of \<^verbatim>\<open>play_action\<close>, and the
  index \<^verbatim>\<open>self.dealer_cards[1]\<close> of \<^verbatim>\<open>dealer_showing\<close> on a dealer hand of fewer than two
  cards.
\<close>

datatype error = AssertionError | IndexError

text \<open>
  \<^verbatim>\<open>get_hand_sum\<close>. \<open>promote n s\<close> is the loop \<^verbatim>\<open>for _ in range(num_aces)\<close> run on the
  running total \<open>s\<close>; \<open>num_aces\<close> is the sum of the booleans \<^verbatim>\<open>card.face == 'A'\<close>.
\<close>

fun promote :: "nat \<Rightarrow> int \<Rightarrow> int" where
  "promote 0 hand_sum = hand_sum"
| "promote (Suc n) hand_sum = promote n (if hand_sum \<le> 11 then hand_sum + 10 else hand_sum)"

definition get_hand_sum :: "Card list \<Rightarrow> int" where
  "get_hand_sum cs =
     (let non_ace_sum = sum_list (map value (filter (\<lambda>c. face c \<noteq> ''A'') cs));
          num_aces = sum_list (map (\<lambda>c. if face c = ''A'' then 1 else 0) cs);
          hand_sum = non_ace_sum + int num_aces
      in promote num_aces hand_sum)"

definition dealer_sum :: "Blackjack \<Rightarrow> int" where
  "dealer_sum b = get_hand_sum (dealer_cards b)"

text \<open>
  The properties \<^verbatim>\<open>player_sum\<close>, \<^verbatim>\<open>usable_ace\<close> and \<^verbatim>\<open>dealer_showing\<close> of the engine share
  their names with the fields of \<open>BlackjackState\<close>; the engine's carry the class name.
\<close>

definition Blackjack_player_sum :: "Blackjack \<Rightarrow> int" where
  "Blackjack_player_sum b = get_hand_sum (player_cards b)"

definition Blackjack_usable_ace :: "Blackjack \<Rightarrow> bool" where
  "Blackjack_usable_ace b =
     (if \<not> list_ex (\<lambda>c. face c = ''A'') (player_cards b) then False
      else if sum_list (map value (player_cards b)) \<ge> 12 then False
      else True)"

definition Blackjack_dealer_showing :: "Blackjack \<Rightarrow> error + Card" where
  "Blackjack_dealer_showing b =
     (if 1 < length (dealer_cards b) then Inr (dealer_cards b ! 1) else Inl IndexError)"

definition state :: "Blackjack \<Rightarrow> error + BlackjackState" where
  "state b =
     (case Blackjack_dealer_showing b of
        Inl e \<Rightarrow> Inl e
      | Inr c \<Rightarrow>
          Inr \<lparr>player_sum = Blackjack_player_sum b, usable_ace = Blackjack_usable_ace b,
               dealer_showing = value c, terminal = (\<not> in_play b)\<rparr>)"

text \<open>\<^verbatim>\<open>return self.state, r\<close>: the engine as it is now, its state and the reward.\<close>

definition return_state :: "Blackjack \<Rightarrow> int \<Rightarrow> error + (Blackjack \<times> BlackjackState \<times> int)" where
  "return_state b r = (case state b of Inl e \<Rightarrow> Inl e | Inr s \<Rightarrow> Inr (b, s, r))"

definition deal_hands :: "Blackjack \<Rightarrow> Blackjack" where
  "deal_hands b =
     (let (pc, d1) = draw_cards 2 (deck b);
          b1 = b\<lparr>deck := d1, player_cards := pc\<rparr>;
          (dc, d2) = draw_cards 2 (deck b1)
      in b1\<lparr>deck := d2, dealer_cards := dc\<rparr>)"

definition reset :: "Blackjack \<Rightarrow> error + (Blackjack \<times> BlackjackState \<times> int)" where
  "reset b =
     (let b1 = deal_hands (b\<lparr>turn := ''player'', player_cards := [], dealer_cards := []\<rparr>);
          b2 = b1\<lparr>in_play := True\<rparr>
      in if Blackjack_player_sum b2 = 21 then return_state (b2\<lparr>in_play := False\<rparr>) 1
         else return_state b2 0)"

subsection \<open>The dealer's loop\<close>

text \<open>
  The loop \<^verbatim>\<open>while self.dealer_sum < 17: self.dealer_cards.append(self.deck.draw_card())\<close>
  of \<^verbatim>\<open>play_action\<close> has no bound in the source. It ends because every card of the table
  adds at least one to the hand's total with all Aces at 1, the quantity \<open>base_sum\<close>
  below, which \<^verbatim>\<open>get_hand_sum\<close> never goes under; the termination proof is given with the
  first facts about the table. \<open>deck_card\<close> says what the table guarantees of a card: an
  Ace is worth 1, any other card 2 to 10.
\<close>

definition deck_card :: "Card \<Rightarrow> bool" where
  "deck_card c = (if face c = ''A'' then value c = 1 else 2 \<le> value c \<and> value c \<le> 10)"

definition num_aces :: "Card list \<Rightarrow> nat" where
  "num_aces cs = sum_list (map (\<lambda>c. if face c = ''A'' then 1 else 0) cs)"

definition base_sum :: "Card list \<Rightarrow> int" where
  "base_sum cs = sum_list (map value (filter (\<lambda>c. face c \<noteq> ''A'') cs)) + int (num_aces cs)"

function dealer_loop :: "Blackjack \<Rightarrow> Blackjack" where
  "dealer_loop b =
     (if dealer_sum b < 17
      then (let (c, d) = draw_card (deck b)
            in dealer_loop (b\<lparr>deck := d, dealer_cards := dealer_cards b @ [c]\<rparr>))
      else b)"
  by pat_completeness auto

subsection \<open>Playing an action\<close>

text \<open>
  \<^verbatim>\<open>play_action\<close>, branch by branch: the assertion, STICK with the dealer's loop and the
  settlement, HIT with the bust test, and the last \<^verbatim>\<open>return self.state, 0\<close>, which a HIT
  that does not bust falls through to.
\<close>

definition play_action ::
  "Blackjack \<Rightarrow> BlackjackAction \<Rightarrow> error + (Blackjack \<times> BlackjackState \<times> int)" where
  "play_action b action =
     (if \<not> in_play b then Inl AssertionError
      else if action = STICK then
        (let b1 = dealer_loop (b\<lparr>turn := ''dealer''\<rparr>);
             b2 = b1\<lparr>in_play := False\<rparr>;
             dealer_sum' = dealer_sum b2;
             player_sum' = Blackjack_player_sum b2
         in if dealer_sum' > 21 then return_state b2 1
            else if dealer_sum' > player_sum' then return_state b2 (- 1)
            else if dealer_sum' < player_sum' then return_state b2 1
            else return_state b2 0)
      else if action = HIT then
        (let (c, d) = draw_card (deck b);
             b1 = b\<lparr>deck := d, player_cards := player_cards b @ [c]\<rparr>
         in if Blackjack_player_sum b1 > 21 then return_state (b1\<lparr>in_play := False\<rparr>) (- 1)
            else return_state b1 0)
      else return_state b 0)"

subsection \<open>Construction and reachable engines\<close>

text \<open>
  \<^verbatim>\<open>Blackjack.__init__\<close> stores the deck and the flag and calls \<^verbatim>\<open>reset\<close>, which sets every
  other attribute; the values given to them here are overwritten before they are read.
\<close>

definition Blackjack_init :: "Deck \<Rightarrow> bool \<Rightarrow> error + Blackjack" where
  "Blackjack_init d v =
     (case reset \<lparr>deck = d, verbose = v, turn = [], player_cards = [], dealer_cards = [],
                  in_play = False\<rparr> of
        Inl e \<Rightarrow> Inl e
      | Inr (b, s, r) \<Rightarrow> Inr b)"

text \<open>
  The engines a program can hold: a fresh one, and whatever \<^verbatim>\<open>reset\<close> and \<^verbatim>\<open>play_action\<close>
  make of one. A call that raises on its assertion has changed nothing, so it adds no
  engine.
\<close>

inductive reachable :: "Blackjack \<Rightarrow> bool" where
  reachable_init: "Blackjack_init d v = Inr b \<Longrightarrow> reachable b"
| reachable_reset: "reachable b \<Longrightarrow> reset b = Inr (b', s, r) \<Longrightarrow> reachable b'"
| reachable_play: "reachable b \<Longrightarrow> play_action b a = Inr (b', s, r) \<Longrightarrow> reachable b'"

section \<open>Example decks and engines\<close>

text \<open>
  Concrete inputs for the closed instances below: a generator whose first raw numbers are
  the given ones (and 0 from then on), and an engine in play that holds two given hands.
\<close>

definition example_deck :: "nat list \<Rightarrow> Deck" where
  "example_deck xs = \<lparr>rand = (\<lambda>n. if n < length xs then xs ! n else 0), pos = 0\<rparr>"

definition holding :: "Card list \<Rightarrow> Card list \<Rightarrow> Deck \<Rightarrow> Blackjack" where
  "holding pc dc d =
     \<lparr>deck = d, verbose = False, turn = ''player'', player_cards = pc, dealer_cards = dc,
      in_play = True\<rparr>"

text \<open>
  A deck that deals 10 9 to the player and 2 3 to the dealer, then 2 and K; the engine
  built on it, and the engines after one and after two HITs.
\<close>

definition engine_19 :: Blackjack where
  "engine_19 =
     \<lparr>deck = (example_deck [9, 8, 1, 2, 1, 12])\<lparr>pos := 4\<rparr>, verbose = False, turn = ''player'',
      player_cards = [\<lparr>face = ''10'', value = 10\<rparr>, \<lparr>face = ''9'', value = 9\<rparr>],
      dealer_cards = [\<lparr>face = ''2'', value = 2\<rparr>, \<lparr>face = ''3'', value = 3\<rparr>],
      in_play = True\<rparr>"

definition engine_21 :: Blackjack where
  "engine_21 =
     \<lparr>deck = (example_deck [9, 8, 1, 2, 1, 12])\<lparr>pos := 5\<rparr>, verbose = False, turn = ''player'',
      player_cards =
        [\<lparr>face = ''10'', value = 10\<rparr>, \<lparr>face = ''9'', value = 9\<rparr>, \<lparr>face = ''2'', value = 2\<rparr>],
      dealer_cards = [\<lparr>face = ''2'', value = 2\<rparr>, \<lparr>face = ''3'', value = 3\<rparr>],
      in_play = True\<rparr>"

definition engine_31 :: Blackjack where
  "engine_31 =
     \<lparr>deck = (example_deck [9, 8, 1, 2, 1, 12])\<lparr>pos := 6\<rparr>, verbose = False, turn = ''player'',
      player_cards =
        [\<lparr>face = ''10'', value = 10\<rparr>, \<lparr>face = ''9'', value = 9\<rparr>, \<lparr>face = ''2'', value = 2\<rparr>,
         \<lparr>face = ''K'', value = 10\<rparr>],
      dealer_cards = [\<lparr>face = ''2'', value = 2\<rparr>, \<lparr>face = ''3'', value = 3\<rparr>],
      in_play = False\<rparr>"

text \<open>
  A deck that deals K 7 to the player and K 9 to the dealer, and the engine built on it.
\<close>

definition engine_17 :: Blackjack where
  "engine_17 =
     \<lparr>deck = (example_deck [12, 6, 12, 8])\<lparr>pos := 4\<rparr>, verbose = False, turn = ''player'',
      player_cards = [\<lparr>face = ''K'', value = 10\<rparr>, \<lparr>face = ''7'', value = 7\<rparr>],
      dealer_cards = [\<lparr>face = ''K'', value = 10\<rparr>, \<lparr>face = ''9'', value = 9\<rparr>],
      in_play = True\<rparr>"

text \<open>
  A deck that deals A K to the player and 6 7 to the dealer, and the engine built on it,
  which is over at once.
\<close>

definition natural_deck :: Deck where
  "natural_deck = example_deck [0, 12, 5, 6]"

definition engine_natural :: Blackjack where
  "engine_natural =
     \<lparr>deck = natural_deck\<lparr>pos := 4\<rparr>, verbose = False, turn = ''player'',
      player_cards = [\<lparr>face = ''A'', value = 1\<rparr>, \<lparr>face = ''K'', value = 10\<rparr>],
      dealer_cards = [\<lparr>face = ''6'', value = 6\<rparr>, \<lparr>face = ''7'', value = 7\<rparr>],
      in_play = False\<rparr>"

section \<open>Notions used in the proofs\<close>

text \<open>A hand all of whose cards are as the table makes them.\<close>

definition deck_hand :: "Card list \<Rightarrow> bool" where
  "deck_hand cs = list_all deck_card cs"

text \<open>
  The Hand Evaluator's usable Ace in the specification's words: the evaluated total differs
  from the total with every Ace counted as 1, that is, an Ace was promoted.
\<close>

definition evaluator_usable_ace :: "Card list \<Rightarrow> bool" where
  "evaluator_usable_ace cs = (get_hand_sum cs \<noteq> base_sum cs)"

text \<open>The card that the \<open>i\<close>-th raw number of the generator selects.\<close>

definition nth_draw :: "Deck \<Rightarrow> nat \<Rightarrow> Card" where
  "nth_draw d i = cards ! (rand d i mod length cards)"

text \<open>The engine that \<^verbatim>\<open>reset\<close> leaves behind.\<close>

definition dealt :: "Blackjack \<Rightarrow> Blackjack" where
  "dealt b =
     b\<lparr>deck := (deck b)\<lparr>pos := pos (deck b) + 4\<rparr>,
       turn := ''player'',
       player_cards := [nth_draw (deck b) (pos (deck b)), nth_draw (deck b) (pos (deck b) + 1)],
       dealer_cards :=
         [nth_draw (deck b) (pos (deck b) + 2), nth_draw (deck b) (pos (deck b) + 3)],
       in_play :=
         get_hand_sum [nth_draw (deck b) (pos (deck b)), nth_draw (deck b) (pos (deck b) + 1)]
           \<noteq> 21\<rparr>"

text \<open>The engine after a HIT and after a STICK, and the reward of the settlement.\<close>

definition hit_engine :: "Blackjack \<Rightarrow> Blackjack" where
  "hit_engine b =
     b\<lparr>deck := snd (draw_card (deck b)),
       player_cards := player_cards b @ [fst (draw_card (deck b))],
       in_play := get_hand_sum (player_cards b @ [fst (draw_card (deck b))]) \<le> 21\<rparr>"

definition stick_engine :: "Blackjack \<Rightarrow> Blackjack" where
  "stick_engine b = (dealer_loop (b\<lparr>turn := ''dealer''\<rparr>))\<lparr>in_play := False\<rparr>"

definition settlement :: "int \<Rightarrow> int \<Rightarrow> int" where
  "settlement dealer player =
     (if 21 < dealer then 1 else if player < dealer then - 1 else if dealer < player then 1 else 0)"

text \<open>
  Every card held comes from the table, both hands have at least two cards, the player
  never holds more than 31 nor the dealer more than 26, and while the hand is in play the
  dealer still holds the two cards dealt and the player is at 21 or below.
\<close>

definition engine_inv :: "Blackjack \<Rightarrow> bool" where
  "engine_inv b =
     (set (player_cards b) \<subseteq> set cards \<and> set (dealer_cards b) \<subseteq> set cards
      \<and> 2 \<le> length (player_cards b) \<and> 2 \<le> length (dealer_cards b)
      \<and> Blackjack_player_sum b \<le> 31 \<and> dealer_sum b \<le> 26
      \<and> (in_play b \<longrightarrow> length (dealer_cards b) = 2 \<and> Blackjack_player_sum b \<le> 21))"

text \<open>The constructor call \<^verbatim>\<open>cls(*tup)\<close> of \<^verbatim>\<open>all_states\<close>.\<close>

definition state_of :: "int \<times> bool \<times> int \<times> bool \<Rightarrow> BlackjackState" where
  "state_of =
     (\<lambda>(p, u, d, t). \<lparr>player_sum = p, usable_ace = u, dealer_showing = d, terminal = t\<rparr>)"

section \<open>The table, and the termination of the dealer's loop\<close>

lemma cards_eq:
  "cards =
    [\<lparr>face = ''A'', value = 1\<rparr>, \<lparr>face = ''2'', value = 2\<rparr>, \<lparr>face = ''3'', value = 3\<rparr>,
     \<lparr>face = ''4'', value = 4\<rparr>, \<lparr>face = ''5'', value = 5\<rparr>, \<lparr>face = ''6'', value = 6\<rparr>,
     \<lparr>face = ''7'', value = 7\<rparr>, \<lparr>face = ''8'', value = 8\<rparr>, \<lparr>face = ''9'', value = 9\<rparr>,
     \<lparr>face = ''10'', value = 10\<rparr>, \<lparr>face = ''J'', value = 10\<rparr>, \<lparr>face = ''Q'', value = 10\<rparr>,
     \<lparr>face = ''K'', value = 10\<rparr>]"
  by (simp add: cards_def str_def digits.simps upto.simps)

lemma length_cards: "length cards = 13"
  by (simp add: cards_eq)

lemma deck_card_cards: "c \<in> set cards \<Longrightarrow> deck_card c"
  by (auto simp: cards_eq deck_card_def)

lemma draw_card_in_cards: "fst (draw_card d) \<in> set cards"
  by (simp add: draw_card_def length_cards)

lemma promote_ge: "s \<le> promote n s"
proof (induction n arbitrary: s)
  case 0
  show ?case by simp
next
  case (Suc n)
  have "s \<le> (if s \<le> 11 then s + 10 else s)" by simp
  also have "\<dots> \<le> promote n (if s \<le> 11 then s + 10 else s)" by (rule Suc.IH)
  finally show ?case by simp
qed

lemma get_hand_sum_promote: "get_hand_sum cs = promote (num_aces cs) (base_sum cs)"
  by (simp add: get_hand_sum_def num_aces_def base_sum_def Let_def)

lemma base_sum_le: "base_sum cs \<le> get_hand_sum cs"
  by (simp add: get_hand_sum_promote promote_ge)

lemma base_sum_snoc:
  "base_sum (cs @ [c]) = base_sum cs + (if face c = ''A'' then 1 else value c)"
  by (simp add: base_sum_def num_aces_def)

lemma base_sum_draw: "base_sum cs < base_sum (cs @ [fst (draw_card d)])"
  using deck_card_cards [OF draw_card_in_cards, of d]
  by (auto simp: base_sum_snoc deck_card_def split: if_splits)

termination dealer_loop
proof (relation "measure (\<lambda>b. nat (17 - base_sum (dealer_cards b)))")
  show "wf (measure (\<lambda>b. nat (17 - base_sum (dealer_cards b))))" by simp
next
  fix b :: Blackjack and x :: "Card \<times> Deck" and c d
  assume lt: "dealer_sum b < 17" and x: "x = draw_card (deck b)" and cd: "(c, d) = x"
  have c: "c = fst (draw_card (deck b))" using x cd by (metis fst_conv)
  have "base_sum (dealer_cards b) < 17"
    using lt base_sum_le [of "dealer_cards b"] by (simp add: dealer_sum_def)
  moreover have "base_sum (dealer_cards b) < base_sum (dealer_cards b @ [c])"
    unfolding c by (rule base_sum_draw)
  ultimately show "(b\<lparr>deck := d, dealer_cards := dealer_cards b @ [c]\<rparr>, b)
      \<in> measure (\<lambda>b. nat (17 - base_sum (dealer_cards b)))"
    by simp
qed

declare dealer_loop.simps [simp del]

section \<open>Hand evaluation\<close>

text \<open>
  A hand of cards of the table: once the total with all Aces at 1 is 12 or more no Ace is
  promoted, and below 12 exactly one is, since a second Ace already puts the total at 12.
\<close>

lemma deck_hand_subset: "set cs \<subseteq> set cards \<Longrightarrow> deck_hand cs"
  by (auto simp: deck_hand_def list_all_iff deck_card_cards)

lemma promote_high: "12 \<le> s \<Longrightarrow> promote n s = s"
  by (induction n arbitrary: s) auto

lemma promote_closed:
  "int n \<le> s \<Longrightarrow> promote n s = (if 0 < n \<and> s \<le> 11 then s + 10 else s)"
proof (cases n)
  case 0
  then show ?thesis by simp
next
  case (Suc m)
  assume le: "int n \<le> s"
  show ?thesis
  proof (cases "s \<le> 11")
    case False
    then show ?thesis by (simp add: promote_high)
  next
    case True
    have "promote m (s + 10) = s + 10"
    proof (cases m)
      case 0
      then show ?thesis by simp
    next
      case (Suc k)
      with le \<open>n = Suc m\<close> have "12 \<le> s + 10" by simp
      then show ?thesis by (rule promote_high)
    qed
    with True Suc show ?thesis by simp
  qed
qed

lemma num_aces_filter: "num_aces cs = length (filter (\<lambda>c. face c = ''A'') cs)"
  by (induction cs) (auto simp: num_aces_def)

lemma non_ace_sum_nonneg:
  "deck_hand cs \<Longrightarrow> 0 \<le> sum_list (map value (filter (\<lambda>c. face c \<noteq> ''A'') cs))"
  by (induction cs) (auto simp: deck_hand_def deck_card_def)

lemma num_aces_le_base: "deck_hand cs \<Longrightarrow> int (num_aces cs) \<le> base_sum cs"
  using non_ace_sum_nonneg [of cs] by (simp add: base_sum_def)

lemma base_sum_values: "deck_hand cs \<Longrightarrow> base_sum cs = sum_list (map value cs)"
  by (induction cs) (auto simp: deck_hand_def deck_card_def base_sum_def num_aces_def)

lemma get_hand_sum_deck:
  "deck_hand cs \<Longrightarrow>
   get_hand_sum cs
     = (if 0 < num_aces cs \<and> base_sum cs \<le> 11 then base_sum cs + 10 else base_sum cs)"
  by (simp add: get_hand_sum_promote promote_closed num_aces_le_base)

lemma list_ex_ace: "list_ex (\<lambda>c. face c = ''A'') cs = (0 < num_aces cs)"
  by (induction cs) (auto simp: num_aces_def)

lemma usable_ace_deck:
  "deck_hand (player_cards b) \<Longrightarrow>
   Blackjack_usable_ace b = (0 < num_aces (player_cards b) \<and> base_sum (player_cards b) \<le> 11)"
  by (auto simp: Blackjack_usable_ace_def list_ex_ace base_sum_values)

text \<open>
  Claim C2. For a player hand of cards of the table: with no Ace, \<^verbatim>\<open>get_hand_sum\<close> is the sum
  of the card values and \<^verbatim>\<open>usable_ace\<close> is false; with exactly one Ace and the other cards
  summing to at most 10, the total is that sum plus 11 and \<^verbatim>\<open>usable_ace\<close> is true; with
  exactly one Ace and the other cards summing to 11 or more, the total is that sum plus 1
  and \<^verbatim>\<open>usable_ace\<close> is false. The hand may even be empty.
\<close>

theorem hand_evaluation:
  assumes "set (player_cards b) \<subseteq> set cards"
  shows "(length (filter (\<lambda>c. face c = ''A'') (player_cards b)) = 0 \<longrightarrow>
            get_hand_sum (player_cards b) = sum_list (map value (player_cards b))
            \<and> \<not> Blackjack_usable_ace b)
       \<and> (length (filter (\<lambda>c. face c = ''A'') (player_cards b)) = 1
            \<and> sum_list (map value (filter (\<lambda>c. face c \<noteq> ''A'') (player_cards b))) \<le> 10 \<longrightarrow>
            get_hand_sum (player_cards b)
              = sum_list (map value (filter (\<lambda>c. face c \<noteq> ''A'') (player_cards b))) + 11
            \<and> Blackjack_usable_ace b)
       \<and> (length (filter (\<lambda>c. face c = ''A'') (player_cards b)) = 1
            \<and> 11 \<le> sum_list (map value (filter (\<lambda>c. face c \<noteq> ''A'') (player_cards b))) \<longrightarrow>
            get_hand_sum (player_cards b)
              = sum_list (map value (filter (\<lambda>c. face c \<noteq> ''A'') (player_cards b))) + 1
            \<and> \<not> Blackjack_usable_ace b)"
proof -
  have dh: "deck_hand (player_cards b)" using assms by (rule deck_hand_subset)
  have vals: "sum_list (map value (player_cards b)) = base_sum (player_cards b)"
    using dh by (simp add: base_sum_values)
  have base: "base_sum (player_cards b)
      = sum_list (map value (filter (\<lambda>c. face c \<noteq> ''A'') (player_cards b)))
        + int (length (filter (\<lambda>c. face c = ''A'') (player_cards b)))"
    by (simp add: base_sum_def num_aces_filter)
  show ?thesis
    unfolding usable_ace_deck [OF dh] get_hand_sum_deck [OF dh] vals
    using base by (simp add: num_aces_filter)
qed

text \<open>The three cases at the hands 5 K, A 7 and 6 A 7.\<close>

theorem hand_evaluation_witness:
  "get_hand_sum [\<lparr>face = ''5'', value = 5\<rparr>, \<lparr>face = ''K'', value = 10\<rparr>] = 15
   \<and> \<not> Blackjack_usable_ace
        (holding [\<lparr>face = ''5'', value = 5\<rparr>, \<lparr>face = ''K'', value = 10\<rparr>] [] (example_deck []))
   \<and> get_hand_sum [\<lparr>face = ''A'', value = 1\<rparr>, \<lparr>face = ''7'', value = 7\<rparr>] = 18
   \<and> Blackjack_usable_ace
        (holding [\<lparr>face = ''A'', value = 1\<rparr>, \<lparr>face = ''7'', value = 7\<rparr>] [] (example_deck []))
   \<and> get_hand_sum
        [\<lparr>face = ''6'', value = 6\<rparr>, \<lparr>face = ''A'', value = 1\<rparr>, \<lparr>face = ''7'', value = 7\<rparr>] = 14
   \<and> \<not> Blackjack_usable_ace
        (holding [\<lparr>face = ''6'', value = 6\<rparr>, \<lparr>face = ''A'', value = 1\<rparr>, \<lparr>face = ''7'', value = 7\<rparr>]
           [] (example_deck []))"
  using
    hand_evaluation
      [of "holding [\<lparr>face = ''5'', value = 5\<rparr>, \<lparr>face = ''K'', value = 10\<rparr>] [] (example_deck [])"]
    hand_evaluation
      [of "holding [\<lparr>face = ''A'', value = 1\<rparr>, \<lparr>face = ''7'', value = 7\<rparr>] [] (example_deck [])"]
    hand_evaluation
      [of "holding [\<lparr>face = ''6'', value = 6\<rparr>, \<lparr>face = ''A'', value = 1\<rparr>, \<lparr>face = ''7'', value = 7\<rparr>]
             [] (example_deck [])"]
  by (simp add: holding_def cards_eq)

text \<open>
  Claim C3. On every player hand of cards of the table, the engine's \<^verbatim>\<open>usable_ace\<close> property
  (an Ace is held and the card values sum to less than 12) and the promotion-based
  definition (\<^verbatim>\<open>get_hand_sum\<close> promoted an Ace) give the same answer.
\<close>

theorem usable_ace_agrees:
  assumes "set (player_cards b) \<subseteq> set cards"
  shows "Blackjack_usable_ace b = evaluator_usable_ace (player_cards b)"
proof -
  have dh: "deck_hand (player_cards b)" using assms by (rule deck_hand_subset)
  show ?thesis
    unfolding evaluator_usable_ace_def usable_ace_deck [OF dh] get_hand_sum_deck [OF dh]
    by simp
qed

text \<open>Both answers are yes on A 7 and no on 6 A 7.\<close>

theorem usable_ace_agrees_witness:
  "Blackjack_usable_ace
     (holding [\<lparr>face = ''A'', value = 1\<rparr>, \<lparr>face = ''7'', value = 7\<rparr>] [] (example_deck []))
   \<and> evaluator_usable_ace [\<lparr>face = ''A'', value = 1\<rparr>, \<lparr>face = ''7'', value = 7\<rparr>]
   \<and> \<not> Blackjack_usable_ace
        (holding [\<lparr>face = ''6'', value = 6\<rparr>, \<lparr>face = ''A'', value = 1\<rparr>, \<lparr>face = ''7'', value = 7\<rparr>]
           [] (example_deck []))
   \<and> \<not> evaluator_usable_ace
        [\<lparr>face = ''6'', value = 6\<rparr>, \<lparr>face = ''A'', value = 1\<rparr>, \<lparr>face = ''7'', value = 7\<rparr>]"
  using
    usable_ace_agrees
      [of "holding [\<lparr>face = ''A'', value = 1\<rparr>, \<lparr>face = ''7'', value = 7\<rparr>] [] (example_deck [])"]
    usable_ace_agrees
      [of "holding [\<lparr>face = ''6'', value = 6\<rparr>, \<lparr>face = ''A'', value = 1\<rparr>, \<lparr>face = ''7'', value = 7\<rparr>]
             [] (example_deck [])"]
  by (simp add: holding_def cards_eq Blackjack_usable_ace_def)

section \<open>Drawing and dealing\<close>

lemma nth_draw_in_cards: "nth_draw d i \<in> set cards"
  by (simp add: nth_draw_def length_cards)

lemma nth_draw_pos [simp]: "nth_draw (d\<lparr>pos := p\<rparr>) i = nth_draw d i"
  by (simp add: nth_draw_def)

lemma draw_card_nth: "draw_card d = (nth_draw d (pos d), d\<lparr>pos := pos d + 1\<rparr>)"
  by (simp add: draw_card_def nth_draw_def)

lemma draw_cards_nth:
  "draw_cards n d = (map (nth_draw d) [pos d..<pos d + n], d\<lparr>pos := pos d + n\<rparr>)"
proof (induction n arbitrary: d)
  case 0
  show ?case by simp
next
  case (Suc n)
  have "[pos d..<pos d + Suc n] = pos d # [Suc (pos d)..<Suc (pos d) + n]"
    by (simp add: upt_conv_Cons)
  then show ?case
    by (simp add: draw_card_nth Suc.IH)
qed

lemma draw_cards_2:
  "draw_cards 2 d = ([nth_draw d (pos d), nth_draw d (pos d + 1)], d\<lparr>pos := pos d + 2\<rparr>)"
  by (simp add: draw_cards_nth upt_conv_Cons)

lemma draw_cards_Suc:
  "fst (draw_cards (Suc k) d) = fst (draw_card d) # fst (draw_cards k (snd (draw_card d)))"
  "snd (draw_cards (Suc k) d) = snd (draw_cards k (snd (draw_card d)))"
  by (simp_all add: split_def Let_def)

lemma draw_cards_snoc:
  "fst (draw_cards (Suc k) d) = fst (draw_cards k d) @ [nth_draw d (pos d + k)]"
  by (simp add: draw_cards_nth)

lemma draw_cards_in_cards: "set (fst (draw_cards k d)) \<subseteq> set cards"
  by (auto simp: draw_cards_nth nth_draw_in_cards)

lemma deal_hands_eq:
  "deal_hands b =
     b\<lparr>deck := (deck b)\<lparr>pos := pos (deck b) + 4\<rparr>,
       player_cards := [nth_draw (deck b) (pos (deck b)), nth_draw (deck b) (pos (deck b) + 1)],
       dealer_cards :=
         [nth_draw (deck b) (pos (deck b) + 2), nth_draw (deck b) (pos (deck b) + 3)]\<rparr>"
proof -
  have four: "pos (deck b) + 2 + 2 = pos (deck b) + 4" "pos (deck b) + 2 + 1 = pos (deck b) + 3"
    by simp_all
  show ?thesis
    by (simp add: deal_hands_def draw_cards_2 four del: One_nat_def add_2_eq_Suc' add_2_eq_Suc)
qed

lemma state_eq:
  "2 \<le> length (dealer_cards b) \<Longrightarrow>
   state b =
     Inr \<lparr>player_sum = get_hand_sum (player_cards b), usable_ace = Blackjack_usable_ace b,
          dealer_showing = value (dealer_cards b ! 1), terminal = (\<not> in_play b)\<rparr>"
  by (simp add: state_def Blackjack_dealer_showing_def Blackjack_player_sum_def)

lemma return_state_eq:
  "2 \<le> length (dealer_cards b) \<Longrightarrow>
   return_state b r =
     Inr (b, \<lparr>player_sum = get_hand_sum (player_cards b), usable_ace = Blackjack_usable_ace b,
               dealer_showing = value (dealer_cards b ! 1), terminal = (\<not> in_play b)\<rparr>, r)"
  by (simp add: return_state_def state_eq)

lemma return_state_engine:
  "return_state b r = Inr (b', s, r') \<Longrightarrow> b' = b \<and> state b = Inr s \<and> r' = r"
  by (auto simp: return_state_def split: sum.splits)

lemma reset_eq:
  "reset b =
     Inr (dealt b,
          \<lparr>player_sum = get_hand_sum (player_cards (dealt b)),
           usable_ace = Blackjack_usable_ace (dealt b),
           dealer_showing = value (nth_draw (deck b) (pos (deck b) + 3)),
           terminal = (get_hand_sum (player_cards (dealt b)) = 21)\<rparr>,
          if get_hand_sum (player_cards (dealt b)) = 21 then 1 else 0)"
  by (simp add: reset_def deal_hands_eq Let_def return_state_eq Blackjack_player_sum_def dealt_def
      Blackjack_usable_ace_def)

lemma reset_engine: "reset b = Inr (b', s, r) \<Longrightarrow> b' = dealt b"
  by (simp add: reset_eq)

lemma init_engine: "Blackjack_init d v = Inr b \<Longrightarrow> \<exists>b0. b = dealt b0"
  by (auto simp: Blackjack_init_def reset_eq)

subsection \<open>Evaluating the example decks\<close>

lemma pos_example: "pos (example_deck xs) = 0"
  by (simp add: example_deck_def)

lemma nth_draw_example:
  "nth_draw ((example_deck xs)\<lparr>pos := p\<rparr>) i
     = cards ! ((if i < length xs then xs ! i else 0) mod 13)"
  "nth_draw (example_deck xs) i = cards ! ((if i < length xs then xs ! i else 0) mod 13)"
  by (simp_all add: nth_draw_def example_deck_def length_cards)

lemma draw_card_example:
  "draw_card ((example_deck xs)\<lparr>pos := p\<rparr>) =
     (cards ! ((if p < length xs then xs ! p else 0) mod 13), (example_deck xs)\<lparr>pos := p + 1\<rparr>)"
  by (simp add: draw_card_def example_deck_def length_cards)

lemma draw_cards_2_example:
  "draw_cards 2 (example_deck xs) =
     ([nth_draw (example_deck xs) 0, nth_draw (example_deck xs) 1], (example_deck xs)\<lparr>pos := 2\<rparr>)"
  "draw_cards 2 ((example_deck xs)\<lparr>pos := 2\<rparr>) =
     ([nth_draw (example_deck xs) 2, nth_draw (example_deck xs) 3], (example_deck xs)\<lparr>pos := 4\<rparr>)"
  by (simp_all add: draw_cards_2 pos_example)

lemmas engine_eval =
  play_action_def draw_card_example cards_eq Blackjack_player_sum_def get_hand_sum_def
  return_state_def state_def Blackjack_dealer_showing_def Blackjack_usable_ace_def
  dealer_sum_def Let_def

lemma engine_19_init: "Blackjack_init (example_deck [9, 8, 1, 2, 1, 12]) False = Inr engine_19"
  by (simp add: Blackjack_init_def reset_eq dealt_def nth_draw_example pos_example cards_eq
      get_hand_sum_def engine_19_def)

lemma engine_19_reachable: "reachable engine_19"
  using engine_19_init by (rule reachable_init)

lemma engine_natural_init: "Blackjack_init natural_deck False = Inr engine_natural"
  by (simp add: Blackjack_init_def reset_eq dealt_def nth_draw_example pos_example cards_eq
      get_hand_sum_def engine_natural_def natural_deck_def)

lemma engine_natural_reachable: "reachable engine_natural"
  using engine_natural_init by (rule reachable_init)

lemma engine_17_init: "Blackjack_init (example_deck [12, 6, 12, 8]) False = Inr engine_17"
  by (simp add: Blackjack_init_def reset_eq dealt_def nth_draw_example pos_example cards_eq
      get_hand_sum_def engine_17_def)

lemma engine_17_reachable: "reachable engine_17"
  using engine_17_init by (rule reachable_init)

lemma reset_natural:
  "reset (holding [] [] natural_deck) =
     Inr (engine_natural,
          \<lparr>player_sum = 21, usable_ace = True, dealer_showing = 7, terminal = True\<rparr>, 1)"
  by (simp add: reset_eq dealt_def holding_def natural_deck_def nth_draw_example pos_example
      cards_eq get_hand_sum_def engine_natural_def Blackjack_usable_ace_def)

section \<open>Reset\<close>

text \<open>
  Claim C7. From any engine, \<^verbatim>\<open>reset\<close> returns (it never raises): the player holds the next
  two cards of the deck and the dealer the two after them, and the deck has moved on by
  four. The reward is 1, the state terminal and \<open>in_play\<close> false exactly when the player's
  two cards total 21; otherwise the reward is 0, the state is not terminal and \<open>in_play\<close>
  is true.
\<close>

theorem reset_deals_and_rewards:
  "\<exists>b' s r. reset b = Inr (b', s, r)
      \<and> player_cards b' = fst (draw_cards 2 (deck b))
      \<and> dealer_cards b' = fst (draw_cards 2 (snd (draw_cards 2 (deck b))))
      \<and> deck b' = snd (draw_cards 2 (snd (draw_cards 2 (deck b))))
      \<and> state b' = Inr s
      \<and> player_sum s = get_hand_sum (player_cards b')
      \<and> r = (if get_hand_sum (player_cards b') = 21 then 1 else 0)
      \<and> terminal s = (get_hand_sum (player_cards b') = 21)
      \<and> in_play b' = (get_hand_sum (player_cards b') \<noteq> 21)"
proof -
  have four: "pos (deck b) + 2 + 2 = pos (deck b) + 4" "pos (deck b) + 2 + 1 = pos (deck b) + 3"
    by simp_all
  have two: "2 \<le> length (dealer_cards (dealt b))" by (simp add: dealt_def)
  have three: "dealer_cards (dealt b) ! 1 = nth_draw (deck b) (pos (deck b) + 3)"
    by (simp add: dealt_def)
  show ?thesis
    apply (rule exI [of _ "dealt b"])
    apply (intro exI conjI)
            apply (rule reset_eq)
           apply (simp_all add: state_eq [OF two] three)
       apply (simp_all add: dealt_def draw_cards_2 four del: One_nat_def add_2_eq_Suc' add_2_eq_Suc)
    done
qed

text \<open>On the deck that deals A K and then 6 7, the hand is over at once with reward 1.\<close>

theorem reset_deals_and_rewards_witness:
  "\<exists>b' s r. reset (holding [] [] natural_deck) = Inr (b', s, r)
     \<and> map face (player_cards b') = [''A'', ''K'']
     \<and> map face (dealer_cards b') = [''6'', ''7'']
     \<and> r = 1 \<and> terminal s \<and> \<not> in_play b'"
proof -
  from reset_deals_and_rewards [of "holding [] [] natural_deck"] obtain b' s r where
    "reset (holding [] [] natural_deck) = Inr (b', s, r)"
    and "player_cards b' = fst (draw_cards 2 (deck (holding [] [] natural_deck)))"
    and "dealer_cards b' =
           fst (draw_cards 2 (snd (draw_cards 2 (deck (holding [] [] natural_deck)))))"
    and "r = (if get_hand_sum (player_cards b') = 21 then 1 else 0)"
    and "terminal s = (get_hand_sum (player_cards b') = 21)"
    and "in_play b' = (get_hand_sum (player_cards b') \<noteq> 21)"
    by blast
  then show ?thesis
    by (simp add: holding_def natural_deck_def draw_cards_2_example nth_draw_example cards_eq
        get_hand_sum_def)
qed

lemma card_by_face:
  assumes "c \<in> set cards"
  shows "face c = ''A'' \<Longrightarrow> c = \<lparr>face = ''A'', value = 1\<rparr>"
    and "face c = ''K'' \<Longrightarrow> c = \<lparr>face = ''K'', value = 10\<rparr>"
  using assms by (auto simp: cards_eq)

text \<open>
  Claim C4, as the specification states it, at the deck that deals A K to the player:
  \<^verbatim>\<open>reset\<close> returns reward 1 and a terminal state with \<open>player_sum = 21\<close>, but its
  \<open>usable_ace\<close> is not false.
\<close>

theorem natural_usable_ace_counterexample:
  "\<not> isl (reset (holding [] [] natural_deck))
   \<and> map face (player_cards (fst (projr (reset (holding [] [] natural_deck))))) = [''A'', ''K'']
   \<and> snd (snd (projr (reset (holding [] [] natural_deck)))) = 1
   \<and> player_sum (fst (snd (projr (reset (holding [] [] natural_deck))))) = 21
   \<and> terminal (fst (snd (projr (reset (holding [] [] natural_deck))))) = True
   \<and> usable_ace (fst (snd (projr (reset (holding [] [] natural_deck))))) \<noteq> False"
  unfolding reset_natural by (simp add: engine_natural_def)

text \<open>
  Claim C4, amended. When the next two cards of the deck are an Ace and a King, in either
  order, \<^verbatim>\<open>reset\<close> returns reward 1 and a terminal state with \<open>player_sum = 21\<close> and
  \<open>usable_ace\<close> true: the Ace is the one counted as 11.
\<close>

theorem natural_reset:
  assumes "set (map face (fst (draw_cards 2 (deck b)))) = {''A'', ''K''}"
  shows "\<exists>b' s r. reset b = Inr (b', s, r)
           \<and> r = 1 \<and> player_sum s = 21 \<and> usable_ace s \<and> terminal s"
proof -
  let ?c1 = "nth_draw (deck b) (pos (deck b))"
  let ?c2 = "nth_draw (deck b) (pos (deck b) + 1)"
  have pc: "player_cards (dealt b) = [?c1, ?c2]" by (simp add: dealt_def)
  from assms have faces: "{face ?c1, face ?c2} = {''A'', ''K''}"
    by (simp add: draw_cards_2)
  then have "face ?c1 = ''A'' \<and> face ?c2 = ''K'' \<or> face ?c1 = ''K'' \<and> face ?c2 = ''A''"
    by (auto simp: doubleton_eq_iff)
  then have hand: "[?c1, ?c2] = [\<lparr>face = ''A'', value = 1\<rparr>, \<lparr>face = ''K'', value = 10\<rparr>]
      \<or> [?c1, ?c2] = [\<lparr>face = ''K'', value = 10\<rparr>, \<lparr>face = ''A'', value = 1\<rparr>]"
    using card_by_face [OF nth_draw_in_cards, of "deck b" "pos (deck b)"]
      card_by_face [OF nth_draw_in_cards, of "deck b" "pos (deck b) + 1"]
    by auto
  then have total: "get_hand_sum (player_cards (dealt b)) = 21"
    unfolding pc by (auto simp: get_hand_sum_def)
  from hand have usable: "Blackjack_usable_ace (dealt b)"
    unfolding Blackjack_usable_ace_def pc by auto
  show ?thesis
    unfolding reset_eq using total usable by simp
qed

theorem natural_reset_witness:
  "set (map face (fst (draw_cards 2 (deck (holding [] [] natural_deck))))) = {''A'', ''K''}
   \<and> (\<exists>b' s r. reset (holding [] [] natural_deck) = Inr (b', s, r)
         \<and> r = 1 \<and> player_sum s = 21 \<and> usable_ace s \<and> terminal s)"
proof -
  have faces:
    "set (map face (fst (draw_cards 2 (deck (holding [] [] natural_deck))))) = {''A'', ''K''}"
    by (simp add: holding_def natural_deck_def draw_cards_2_example nth_draw_example cards_eq)
  from faces natural_reset [OF faces] show ?thesis by blast
qed

section \<open>The dealer's loop, unrolled\<close>

lemma dealer_loop_stop: "\<not> dealer_sum b < 17 \<Longrightarrow> dealer_loop b = b"
  by (subst dealer_loop.simps) simp

lemma dealer_loop_draw:
  "dealer_sum b < 17 \<Longrightarrow>
   dealer_loop b =
     dealer_loop (b\<lparr>deck := snd (draw_card (deck b)),
                    dealer_cards := dealer_cards b @ [fst (draw_card (deck b))]\<rparr>)"
  by (subst dealer_loop.simps) (simp add: split_def Let_def)

text \<open>
  The loop stops after some number \<open>k\<close> of draws: the dealer then holds the \<open>k\<close> next cards
  of the deck on top of the old hand, every shorter prefix totalled less than 17, and the
  final hand totals 17 or more.
\<close>

lemma dealer_loop_draws:
  "\<exists>k. dealer_loop b =
          b\<lparr>deck := snd (draw_cards k (deck b)),
            dealer_cards := dealer_cards b @ fst (draw_cards k (deck b))\<rparr>
      \<and> (\<forall>j<k. get_hand_sum (dealer_cards b @ fst (draw_cards j (deck b))) < 17)
      \<and> 17 \<le> get_hand_sum (dealer_cards b @ fst (draw_cards k (deck b)))"
proof (induction b rule: dealer_loop.induct)
  case (1 b)
  show ?case
  proof (cases "dealer_sum b < 17")
    case False
    then have "dealer_loop b = b" by (rule dealer_loop_stop)
    with False show ?thesis
      by (intro exI [of _ 0]) (simp add: dealer_sum_def)
  next
    case True
    define c where "c = fst (draw_card (deck b))"
    define d where "d = snd (draw_card (deck b))"
    define b1 where "b1 = b\<lparr>deck := d, dealer_cards := dealer_cards b @ [c]\<rparr>"
    have cd: "(c, d) = draw_card (deck b)" by (simp add: c_def d_def)
    from "1.IH" [OF True refl cd] obtain k where
      loop: "dealer_loop b1 =
               b1\<lparr>deck := snd (draw_cards k (deck b1)),
                  dealer_cards := dealer_cards b1 @ fst (draw_cards k (deck b1))\<rparr>"
      and below: "\<forall>j<k. get_hand_sum (dealer_cards b1 @ fst (draw_cards j (deck b1))) < 17"
      and final: "17 \<le> get_hand_sum (dealer_cards b1 @ fst (draw_cards k (deck b1)))"
      unfolding b1_def by blast
    have step: "dealer_loop b = dealer_loop b1"
      using dealer_loop_draw [OF True] by (simp add: b1_def c_def d_def)
    have eq: "dealer_loop b =
          b\<lparr>deck := snd (draw_cards (Suc k) (deck b)),
            dealer_cards := dealer_cards b @ fst (draw_cards (Suc k) (deck b))\<rparr>"
      unfolding step loop draw_cards_Suc by (simp add: b1_def c_def d_def)
    have low: "get_hand_sum (dealer_cards b @ fst (draw_cards j (deck b))) < 17"
      if "j < Suc k" for j
    proof (cases j)
      case 0
      with True show ?thesis by (simp add: dealer_sum_def)
    next
      case (Suc i)
      with that have "i < k" by simp
      with below have "get_hand_sum (dealer_cards b1 @ fst (draw_cards i (deck b1))) < 17"
        by blast
      then show ?thesis
        unfolding Suc draw_cards_Suc by (simp add: b1_def c_def d_def)
    qed
    have fin: "17 \<le> get_hand_sum (dealer_cards b @ fst (draw_cards (Suc k) (deck b)))"
      using final unfolding draw_cards_Suc by (simp add: b1_def c_def d_def)
    from eq low fin show ?thesis by blast
  qed
qed

section \<open>Bounds on hand totals\<close>

lemma deck_hand_append [simp]: "deck_hand (xs @ ys) = (deck_hand xs \<and> deck_hand ys)"
  by (simp add: deck_hand_def)

lemma deck_hand_single [simp]: "deck_hand [c] = deck_card c"
  by (simp add: deck_hand_def)

lemma deck_card_value: "deck_card c \<Longrightarrow> 1 \<le> value c \<and> value c \<le> 10"
  by (auto simp: deck_card_def split: if_splits)

lemma num_aces_snoc: "num_aces (cs @ [c]) = num_aces cs + (if face c = ''A'' then 1 else 0)"
  by (simp add: num_aces_def)

text \<open>One more card of the table takes a hand to 21 at most, or to at most ten more.\<close>

lemma hit_bound:
  assumes "deck_hand cs" and "deck_card c"
  shows "get_hand_sum (cs @ [c]) \<le> max 21 (get_hand_sum cs + 10)"
proof -
  have dh: "deck_hand (cs @ [c])" using assms by simp
  show ?thesis
    unfolding get_hand_sum_deck [OF dh] get_hand_sum_deck [OF assms(1)] base_sum_snoc
      num_aces_snoc
    using assms(2) by (auto simp: deck_card_def split: if_splits)
qed

lemma length_le_base: "deck_hand cs \<Longrightarrow> int (length cs) \<le> base_sum cs"
  by (induction cs) (auto simp: deck_hand_def deck_card_def base_sum_def num_aces_def)

lemma no_ace_base: "deck_hand cs \<Longrightarrow> num_aces cs = 0 \<Longrightarrow> 2 * int (length cs) \<le> base_sum cs"
  by (induction cs)
    (auto simp: deck_hand_def deck_card_def base_sum_def num_aces_def split: if_splits)

lemma hand_sum_lower:
  assumes "deck_hand cs" and "2 \<le> length cs"
  shows "4 \<le> get_hand_sum cs"
proof (cases "num_aces cs = 0")
  case True
  with no_ace_base [OF assms(1)] assms(2) show ?thesis
    by (simp add: get_hand_sum_deck [OF assms(1)])
next
  case False
  with length_le_base [OF assms(1)] assms(2) show ?thesis
    by (simp add: get_hand_sum_deck [OF assms(1)])
qed

lemma two_card_sum:
  assumes "deck_card c1" and "deck_card c2"
  shows "get_hand_sum [c1, c2] \<le> 21"
proof -
  have "get_hand_sum ([c1] @ [c2]) \<le> max 21 (get_hand_sum [c1] + 10)"
    using assms by (intro hit_bound) simp_all
  moreover have "get_hand_sum [c1] \<le> 11"
    using assms(1) by (auto simp: get_hand_sum_def deck_card_def)
  ultimately show ?thesis by simp
qed

lemma dealer_loop_bound:
  assumes cs: "set (dealer_cards b) \<subseteq> set cards" and le: "dealer_sum b \<le> 26"
  shows "dealer_sum (dealer_loop b) \<le> 26"
proof -
  from dealer_loop_draws [of b] obtain k where
    loop: "dealer_loop b =
             b\<lparr>deck := snd (draw_cards k (deck b)),
               dealer_cards := dealer_cards b @ fst (draw_cards k (deck b))\<rparr>"
    and below: "\<forall>j<k. get_hand_sum (dealer_cards b @ fst (draw_cards j (deck b))) < 17"
    by blast
  show ?thesis
  proof (cases k)
    case 0
    with loop le show ?thesis by (simp add: dealer_sum_def)
  next
    case (Suc i)
    let ?cs = "dealer_cards b @ fst (draw_cards i (deck b))"
    let ?c = "nth_draw (deck b) (pos (deck b) + i)"
    have "deck_hand ?cs"
      using cs draw_cards_in_cards [of i "deck b"] by (simp add: deck_hand_subset)
    moreover have "deck_card ?c" by (intro deck_card_cards nth_draw_in_cards)
    ultimately have "get_hand_sum (?cs @ [?c]) \<le> max 21 (get_hand_sum ?cs + 10)"
      by (rule hit_bound)
    moreover have "get_hand_sum ?cs < 17" using below Suc by blast
    ultimately have "get_hand_sum (?cs @ [?c]) \<le> 26" by simp
    then show ?thesis
      unfolding loop Suc draw_cards_snoc by (simp add: dealer_sum_def)
  qed
qed

section \<open>What an action leaves behind\<close>

lemma play_hit:
  "in_play b \<Longrightarrow>
   play_action b HIT =
     return_state (hit_engine b)
       (if 21 < get_hand_sum (player_cards (hit_engine b)) then - 1 else 0)"
  by (cases b)
    (simp add: play_action_def hit_engine_def split_def Let_def Blackjack_player_sum_def)

lemma play_stick:
  "in_play b \<Longrightarrow>
   play_action b STICK =
     return_state (stick_engine b)
       (settlement (dealer_sum (stick_engine b)) (Blackjack_player_sum (stick_engine b)))"
  by (simp add: play_action_def stick_engine_def settlement_def Let_def)

lemma play_not_in_play: "\<not> in_play b \<Longrightarrow> play_action b a = Inl AssertionError"
  by (simp add: play_action_def)

lemma stick_engine_draws:
  "\<exists>k. stick_engine b =
          b\<lparr>turn := ''dealer'', deck := snd (draw_cards k (deck b)),
            dealer_cards := dealer_cards b @ fst (draw_cards k (deck b)), in_play := False\<rparr>
      \<and> (\<forall>j<k. get_hand_sum (dealer_cards b @ fst (draw_cards j (deck b))) < 17)
      \<and> 17 \<le> get_hand_sum (dealer_cards b @ fst (draw_cards k (deck b)))"
proof -
  from dealer_loop_draws [of "b\<lparr>turn := ''dealer''\<rparr>"] obtain k where
    "dealer_loop (b\<lparr>turn := ''dealer''\<rparr>) =
       b\<lparr>turn := ''dealer'', deck := snd (draw_cards k (deck b)),
         dealer_cards := dealer_cards b @ fst (draw_cards k (deck b))\<rparr>"
    and "\<forall>j<k. get_hand_sum (dealer_cards b @ fst (draw_cards j (deck b))) < 17"
    and "17 \<le> get_hand_sum (dealer_cards b @ fst (draw_cards k (deck b)))"
    by auto
  then show ?thesis
    unfolding stick_engine_def by (intro exI [of _ k]) simp
qed

lemma stick_engine_bound:
  assumes "set (dealer_cards b) \<subseteq> set cards" and "dealer_sum b \<le> 26"
  shows "dealer_sum (stick_engine b) \<le> 26"
proof -
  have "dealer_sum (dealer_loop (b\<lparr>turn := ''dealer''\<rparr>)) \<le> 26"
    using assms by (intro dealer_loop_bound) (simp_all add: dealer_sum_def)
  then show ?thesis by (simp add: stick_engine_def dealer_sum_def)
qed

section \<open>An invariant of reachable engines\<close>

lemma inv_dealer_two: "engine_inv b \<Longrightarrow> 2 \<le> length (dealer_cards b)"
  by (simp add: engine_inv_def)

lemma engine_inv_dealt: "engine_inv (dealt b)"
proof -
  have p: "get_hand_sum [nth_draw (deck b) (pos (deck b)), nth_draw (deck b) (pos (deck b) + 1)]
      \<le> 21"
    by (intro two_card_sum deck_card_cards nth_draw_in_cards)
  have d: "get_hand_sum
      [nth_draw (deck b) (pos (deck b) + 2), nth_draw (deck b) (pos (deck b) + 3)] \<le> 21"
    by (intro two_card_sum deck_card_cards nth_draw_in_cards)
  show ?thesis
    using p d
    by (simp add: engine_inv_def dealt_def nth_draw_in_cards Blackjack_player_sum_def
        dealer_sum_def)
qed

lemma engine_inv_hit:
  assumes inv: "engine_inv b" and play: "in_play b"
  shows "engine_inv (hit_engine b)"
proof -
  let ?c = "fst (draw_card (deck b))"
  have c: "?c \<in> set cards" by (rule draw_card_in_cards)
  have "deck_hand (player_cards b)" using inv by (simp add: engine_inv_def deck_hand_subset)
  then have "get_hand_sum (player_cards b @ [?c]) \<le> max 21 (get_hand_sum (player_cards b) + 10)"
    using deck_card_cards [OF c] by (rule hit_bound)
  moreover have "get_hand_sum (player_cards b) \<le> 21"
    using inv play by (simp add: engine_inv_def Blackjack_player_sum_def)
  ultimately have "get_hand_sum (player_cards b @ [?c]) \<le> 31" by simp
  then show ?thesis
    using inv play c
    by (simp add: engine_inv_def hit_engine_def Blackjack_player_sum_def dealer_sum_def)
qed

lemma engine_inv_stick:
  assumes inv: "engine_inv b"
  shows "engine_inv (stick_engine b)"
proof -
  from stick_engine_draws [of b] obtain k where
    eq: "stick_engine b =
          b\<lparr>turn := ''dealer'', deck := snd (draw_cards k (deck b)),
            dealer_cards := dealer_cards b @ fst (draw_cards k (deck b)), in_play := False\<rparr>"
    by blast
  have "dealer_sum (stick_engine b) \<le> 26"
    using inv by (intro stick_engine_bound) (simp_all add: engine_inv_def)
  moreover have "Blackjack_player_sum (stick_engine b) = Blackjack_player_sum b"
    by (simp add: eq Blackjack_player_sum_def)
  ultimately show ?thesis
    using inv draw_cards_in_cards [of k "deck b"]
    by (simp add: engine_inv_def eq)
qed

lemma play_engine_inv:
  assumes inv: "engine_inv b" and play: "play_action b a = Inr (b', s, r)"
  shows "engine_inv b'"
proof -
  have ip: "in_play b" using play by (auto simp: play_action_def split: if_splits)
  show ?thesis
  proof (cases a)
    case HIT
    with play ip have "b' = hit_engine b"
      by (auto simp: play_hit dest: return_state_engine)
    with inv ip show ?thesis by (simp add: engine_inv_hit)
  next
    case STICK
    with play ip have "b' = stick_engine b"
      by (auto simp: play_stick dest: return_state_engine)
    with inv show ?thesis by (simp add: engine_inv_stick)
  qed
qed

lemma reachable_inv: "reachable b \<Longrightarrow> engine_inv b"
proof (induction rule: reachable.induct)
  case (reachable_init d v b)
  then show ?case by (auto dest: init_engine simp: engine_inv_dealt)
next
  case (reachable_reset b b' s r)
  then show ?case by (auto dest: reset_engine simp: engine_inv_dealt)
next
  case (reachable_play b a b' s r)
  then show ?case by (auto intro: play_engine_inv)
qed

subsection \<open>The example engines, played\<close>

lemma hit_19:
  "play_action engine_19 HIT =
     Inr (engine_21,
          \<lparr>player_sum = 21, usable_ace = False, dealer_showing = 3, terminal = False\<rparr>, 0)"
  by (simp add: engine_19_def engine_21_def engine_eval)

lemma hit_21:
  "play_action engine_21 HIT =
     Inr (engine_31,
          \<lparr>player_sum = 31, usable_ace = False, dealer_showing = 3, terminal = True\<rparr>, - 1)"
  by (simp add: engine_21_def engine_31_def engine_eval)

lemma stick_19:
  "play_action engine_19 STICK =
     Inr (engine_19
            \<lparr>turn := ''dealer'', deck := (example_deck [9, 8, 1, 2, 1, 12])\<lparr>pos := 6\<rparr>,
             dealer_cards :=
               dealer_cards engine_19 @ [\<lparr>face = ''2'', value = 2\<rparr>, \<lparr>face = ''K'', value = 10\<rparr>],
             in_play := False\<rparr>,
          \<lparr>player_sum = 19, usable_ace = False, dealer_showing = 3, terminal = True\<rparr>, 1)"
  by (simp add: engine_19_def engine_eval dealer_loop_draw dealer_loop_stop)

lemma engine_31_reachable: "reachable engine_31"
  using reachable_play [OF reachable_play [OF engine_19_reachable hit_19] hit_21] .

section \<open>HIT\<close>

text \<open>
  Claim C6. On a reachable engine in play, HIT returns (no error): the player holds one
  more card, the next one of the deck, and the dealer's hand is untouched. If the new
  total exceeds 21, \<open>in_play\<close> is false and the reward is -1; otherwise, a total of
  exactly 21 included, \<open>in_play\<close> stays true and the reward is 0. The returned state is
  the state of the new engine and carries the new total.
\<close>

theorem hit_draws_one_card:
  assumes "reachable b" and "in_play b"
  shows "\<exists>b' s r. play_action b HIT = Inr (b', s, r)
           \<and> player_cards b' = player_cards b @ [fst (draw_card (deck b))]
           \<and> deck b' = snd (draw_card (deck b))
           \<and> dealer_cards b' = dealer_cards b
           \<and> state b' = Inr s
           \<and> player_sum s = get_hand_sum (player_cards b')
           \<and> terminal s = (\<not> in_play b')
           \<and> (21 < get_hand_sum (player_cards b') \<longrightarrow> \<not> in_play b' \<and> r = - 1)
           \<and> (get_hand_sum (player_cards b') \<le> 21 \<longrightarrow> in_play b' \<and> r = 0)"
proof -
  have two: "2 \<le> length (dealer_cards (hit_engine b))"
    using reachable_inv [OF assms(1)] by (simp add: engine_inv_def hit_engine_def)
  have ret: "play_action b HIT =
      Inr (hit_engine b,
           \<lparr>player_sum = get_hand_sum (player_cards (hit_engine b)),
            usable_ace = Blackjack_usable_ace (hit_engine b),
            dealer_showing = value (dealer_cards (hit_engine b) ! 1),
            terminal = (\<not> in_play (hit_engine b))\<rparr>,
           if 21 < get_hand_sum (player_cards (hit_engine b)) then - 1 else 0)"
    unfolding play_hit [OF assms(2)] by (rule return_state_eq [OF two])
  show ?thesis
    apply (rule exI [of _ "hit_engine b"])
    apply (intro exI conjI)
            apply (rule ret)
           apply (simp_all add: state_eq [OF two])
        apply (simp_all add: hit_engine_def)
    done
qed

text \<open>The player at 10 9 draws a 2: the total is 21, the hand goes on, the reward is 0.\<close>

theorem hit_draws_one_card_witness:
  "reachable engine_19 \<and> in_play engine_19
   \<and> (\<exists>b' s r. play_action engine_19 HIT = Inr (b', s, r)
         \<and> map face (player_cards b') = [''10'', ''9'', ''2'']
         \<and> player_sum s = 21 \<and> \<not> terminal s \<and> in_play b' \<and> r = 0)"
proof -
  have ip: "in_play engine_19" by (simp add: engine_19_def)
  from hit_draws_one_card [OF engine_19_reachable ip] obtain b' s r where
    play: "play_action engine_19 HIT = Inr (b', s, r)"
    and cs: "player_cards b' = player_cards engine_19 @ [fst (draw_card (deck engine_19))]"
    and ps: "player_sum s = get_hand_sum (player_cards b')"
    and tm: "terminal s = (\<not> in_play b')"
    and le: "get_hand_sum (player_cards b') \<le> 21 \<longrightarrow> in_play b' \<and> r = 0"
    by blast
  have cards': "player_cards b' =
      [\<lparr>face = ''10'', value = 10\<rparr>, \<lparr>face = ''9'', value = 9\<rparr>, \<lparr>face = ''2'', value = 2\<rparr>]"
    unfolding cs by (simp add: engine_19_def draw_card_example cards_eq)
  have total: "get_hand_sum (player_cards b') = 21"
    unfolding cards' by (simp add: get_hand_sum_def)
  from play cards' total ps tm le engine_19_reachable ip show ?thesis by simp
qed

section \<open>The assertion\<close>

text \<open>
  Claim C8. On a reachable engine, \<^verbatim>\<open>play_action\<close> raises the assertion error (the
  specification's InvalidOperation) exactly when \<open>in_play\<close> is false, and when \<open>in_play\<close>
  is true it returns a result for HIT and for STICK alike; so no other error occurs.
\<close>

theorem play_action_error_iff:
  assumes "reachable b"
  shows "(play_action b a = Inl AssertionError) = (\<not> in_play b)
       \<and> (in_play b \<longrightarrow> (\<exists>b' s r. play_action b a = Inr (b', s, r)))"
proof (cases "in_play b")
  case False
  then show ?thesis by (simp add: play_not_in_play)
next
  case True
  have inv: "engine_inv b" using assms by (rule reachable_inv)
  have "\<exists>b' s r. play_action b a = Inr (b', s, r)"
  proof (cases a)
    case HIT
    have "2 \<le> length (dealer_cards (hit_engine b))"
      using inv by (simp add: engine_inv_def hit_engine_def)
    then show ?thesis
      unfolding HIT play_hit [OF True] by (simp add: return_state_eq)
  next
    case STICK
    have "2 \<le> length (dealer_cards (stick_engine b))"
      using engine_inv_stick [OF inv] by (rule inv_dealer_two)
    then show ?thesis
      unfolding STICK play_stick [OF True] by (simp add: return_state_eq)
  qed
  with True show ?thesis by auto
qed

text \<open>The engine that ended on a natural refuses both actions; the one at 19 takes both.\<close>

theorem play_action_error_iff_witness:
  "reachable engine_natural \<and> \<not> in_play engine_natural
   \<and> play_action engine_natural HIT = Inl AssertionError
   \<and> play_action engine_natural STICK = Inl AssertionError
   \<and> reachable engine_19 \<and> in_play engine_19
   \<and> (\<exists>b' s r. play_action engine_19 HIT = Inr (b', s, r))
   \<and> (\<exists>b' s r. play_action engine_19 STICK = Inr (b', s, r))"
  using play_action_error_iff [OF engine_natural_reachable, of HIT]
    play_action_error_iff [OF engine_natural_reachable, of STICK]
    play_action_error_iff [OF engine_19_reachable, of HIT]
    play_action_error_iff [OF engine_19_reachable, of STICK]
    engine_natural_reachable engine_19_reachable
  by (simp add: engine_natural_def engine_19_def)

section \<open>STICK\<close>

text \<open>
  Claim C5. On a reachable engine in play, STICK returns (no error). The dealer has drawn
  some number \<open>k\<close> of cards, the next \<open>k\<close> of the deck in order: after each of the first
  \<open>0, \<dots>, k - 1\<close> draws \<^verbatim>\<open>get_hand_sum\<close> of the dealer's hand was below 17, so a card was
  drawn, and \<^verbatim>\<open>get_hand_sum\<close> of the final hand is 17 or more, so the drawing stopped. The
  player's hand is untouched, \<open>in_play\<close> is false, the state is terminal and carries the
  player's total. With both totals the values of \<^verbatim>\<open>get_hand_sum\<close> on the hands the engine
  now holds, the reward is 1 if the dealer's total exceeds 21, whatever the player's;
  otherwise -1 if the dealer's total exceeds the player's, 1 if it is lower, and 0 if
  they are equal.
\<close>

theorem stick_dealer_policy:
  assumes "reachable b" and "in_play b"
  shows "\<exists>k b' s r. play_action b STICK = Inr (b', s, r)
           \<and> dealer_cards b' = dealer_cards b @ fst (draw_cards k (deck b))
           \<and> deck b' = snd (draw_cards k (deck b))
           \<and> (\<forall>j<k. get_hand_sum (dealer_cards b @ fst (draw_cards j (deck b))) < 17)
           \<and> 17 \<le> get_hand_sum (dealer_cards b')
           \<and> player_cards b' = player_cards b
           \<and> \<not> in_play b'
           \<and> state b' = Inr s
           \<and> terminal s
           \<and> player_sum s = get_hand_sum (player_cards b')
           \<and> r = (if 21 < get_hand_sum (dealer_cards b') then 1
                  else if get_hand_sum (player_cards b') < get_hand_sum (dealer_cards b') then - 1
                  else if get_hand_sum (dealer_cards b') < get_hand_sum (player_cards b') then 1
                  else 0)"
proof -
  from stick_engine_draws [of b] obtain k where
    eq: "stick_engine b =
          b\<lparr>turn := ''dealer'', deck := snd (draw_cards k (deck b)),
            dealer_cards := dealer_cards b @ fst (draw_cards k (deck b)), in_play := False\<rparr>"
    and below: "\<forall>j<k. get_hand_sum (dealer_cards b @ fst (draw_cards j (deck b))) < 17"
    and final: "17 \<le> get_hand_sum (dealer_cards b @ fst (draw_cards k (deck b)))"
    by blast
  have two: "2 \<le> length (dealer_cards (stick_engine b))"
    using engine_inv_stick [OF reachable_inv [OF assms(1)]] by (rule inv_dealer_two)
  have ret: "play_action b STICK =
      Inr (stick_engine b,
           \<lparr>player_sum = get_hand_sum (player_cards (stick_engine b)),
            usable_ace = Blackjack_usable_ace (stick_engine b),
            dealer_showing = value (dealer_cards (stick_engine b) ! 1),
            terminal = (\<not> in_play (stick_engine b))\<rparr>,
           settlement (get_hand_sum (dealer_cards (stick_engine b)))
             (get_hand_sum (player_cards (stick_engine b))))"
    unfolding play_stick [OF assms(2)] dealer_sum_def Blackjack_player_sum_def
    by (rule return_state_eq [OF two])
  show ?thesis
    apply (rule exI [of _ k])
    apply (rule exI [of _ "stick_engine b"])
    apply (intro exI conjI)
              apply (rule ret)
    using below final
             apply (simp_all add: state_eq [OF two] settlement_def)
         apply (simp_all add: eq)
    done
qed

text \<open>
  The dealer at 2 3 draws a 2 (total 7) and a King (total 17) and stops; the player's 19
  wins. The dealer at K 9 draws nothing and beats the player's K 7.
\<close>

theorem stick_dealer_policy_witness:
  "reachable engine_19 \<and> in_play engine_19
   \<and> (\<exists>b' s r. play_action engine_19 STICK = Inr (b', s, r)
         \<and> map face (dealer_cards b') = [''2'', ''3'', ''2'', ''K'']
         \<and> get_hand_sum (dealer_cards b') = 17
         \<and> map face (player_cards b') = [''10'', ''9'']
         \<and> get_hand_sum (player_cards b') = 19
         \<and> \<not> in_play b' \<and> terminal s \<and> r = 1)
   \<and> reachable engine_17 \<and> in_play engine_17
   \<and> (\<exists>b' s r. play_action engine_17 STICK = Inr (b', s, r)
         \<and> map face (dealer_cards b') = [''K'', ''9'']
         \<and> get_hand_sum (dealer_cards b') = 19
         \<and> map face (player_cards b') = [''K'', ''7'']
         \<and> get_hand_sum (player_cards b') = 17
         \<and> \<not> in_play b' \<and> terminal s \<and> r = - 1)"
proof -
  have first: "\<exists>b' s r. play_action engine_19 STICK = Inr (b', s, r)
         \<and> map face (dealer_cards b') = [''2'', ''3'', ''2'', ''K'']
         \<and> get_hand_sum (dealer_cards b') = 17
         \<and> map face (player_cards b') = [''10'', ''9'']
         \<and> get_hand_sum (player_cards b') = 19
         \<and> \<not> in_play b' \<and> terminal s \<and> r = 1"
  proof -
    have ip: "in_play engine_19" by (simp add: engine_19_def)
    let ?d = "deck engine_19"
    let ?cs = "dealer_cards engine_19"
    from stick_dealer_policy [OF engine_19_reachable ip] obtain k b' s r where
      play: "play_action engine_19 STICK = Inr (b', s, r)"
      and cs: "dealer_cards b' = ?cs @ fst (draw_cards k ?d)"
      and below: "\<forall>j<k. get_hand_sum (?cs @ fst (draw_cards j ?d)) < 17"
      and final: "17 \<le> get_hand_sum (dealer_cards b')"
      and pc: "player_cards b' = player_cards engine_19"
      and rest: "\<not> in_play b'" "terminal s"
      and r: "r = (if 21 < get_hand_sum (dealer_cards b') then 1
                  else if get_hand_sum (player_cards b') < get_hand_sum (dealer_cards b') then - 1
                  else if get_hand_sum (dealer_cards b') < get_hand_sum (player_cards b') then 1
                  else 0)"
      by blast
    have draws: "fst (draw_cards j ?d) = map (nth_draw ?d) [4..<4 + j]" for j
      by (simp add: draw_cards_nth engine_19_def)
    have sums:
      "get_hand_sum (?cs @ fst (draw_cards 0 ?d)) = 5"
      "get_hand_sum (?cs @ fst (draw_cards 1 ?d)) = 7"
      "get_hand_sum (?cs @ fst (draw_cards 2 ?d)) = 17"
      unfolding draws
      by (simp_all add: engine_19_def nth_draw_example cards_eq get_hand_sum_def upt_conv_Cons)
    have "k = 2"
    proof -
      have "\<not> 2 < k" using below sums(3) by fastforce
      moreover have "k \<noteq> 0"
      proof
        assume "k = 0"
        with final cs sums(1) show False by simp
      qed
      moreover have "k \<noteq> 1"
      proof
        assume "k = 1"
        with final cs sums(2) show False by simp
      qed
      ultimately show ?thesis by arith
    qed
    have dc: "dealer_cards b' =
        [\<lparr>face = ''2'', value = 2\<rparr>, \<lparr>face = ''3'', value = 3\<rparr>, \<lparr>face = ''2'', value = 2\<rparr>,
         \<lparr>face = ''K'', value = 10\<rparr>]"
      unfolding cs \<open>k = 2\<close> draws
      by (simp add: engine_19_def nth_draw_example cards_eq upt_conv_Cons)
    have pc': "player_cards b' = [\<lparr>face = ''10'', value = 10\<rparr>, \<lparr>face = ''9'', value = 9\<rparr>]"
      unfolding pc by (simp add: engine_19_def)
    have ds: "get_hand_sum (dealer_cards b') = 17" unfolding dc by (simp add: get_hand_sum_def)
    have ps: "get_hand_sum (player_cards b') = 19" unfolding pc' by (simp add: get_hand_sum_def)
    from play dc pc' ds ps rest r show ?thesis by simp
  qed
  have second: "\<exists>b' s r. play_action engine_17 STICK = Inr (b', s, r)
         \<and> map face (dealer_cards b') = [''K'', ''9'']
         \<and> get_hand_sum (dealer_cards b') = 19
         \<and> map face (player_cards b') = [''K'', ''7'']
         \<and> get_hand_sum (player_cards b') = 17
         \<and> \<not> in_play b' \<and> terminal s \<and> r = - 1"
  proof -
    have ip: "in_play engine_17" by (simp add: engine_17_def)
    let ?d = "deck engine_17"
    let ?cs = "dealer_cards engine_17"
    from stick_dealer_policy [OF engine_17_reachable ip] obtain k b' s r where
      play: "play_action engine_17 STICK = Inr (b', s, r)"
      and cs: "dealer_cards b' = ?cs @ fst (draw_cards k ?d)"
      and below: "\<forall>j<k. get_hand_sum (?cs @ fst (draw_cards j ?d)) < 17"
      and pc: "player_cards b' = player_cards engine_17"
      and rest: "\<not> in_play b'" "terminal s"
      and r: "r = (if 21 < get_hand_sum (dealer_cards b') then 1
                  else if get_hand_sum (player_cards b') < get_hand_sum (dealer_cards b') then - 1
                  else if get_hand_sum (dealer_cards b') < get_hand_sum (player_cards b') then 1
                  else 0)"
      by blast
    have start: "get_hand_sum (?cs @ fst (draw_cards 0 ?d)) = 19"
      by (simp add: engine_17_def get_hand_sum_def)
    have "k = 0"
    proof (rule ccontr)
      assume "k \<noteq> 0"
      then have "0 < k" by simp
      with below have "get_hand_sum (?cs @ fst (draw_cards 0 ?d)) < 17" by blast
      with start show False by simp
    qed
    have dc: "dealer_cards b' = [\<lparr>face = ''K'', value = 10\<rparr>, \<lparr>face = ''9'', value = 9\<rparr>]"
      unfolding cs \<open>k = 0\<close> by (simp add: engine_17_def)
    have pc': "player_cards b' = [\<lparr>face = ''K'', value = 10\<rparr>, \<lparr>face = ''7'', value = 7\<rparr>]"
      unfolding pc by (simp add: engine_17_def)
    have ds: "get_hand_sum (dealer_cards b') = 19" unfolding dc by (simp add: get_hand_sum_def)
    have ps: "get_hand_sum (player_cards b') = 17" unfolding pc' by (simp add: get_hand_sum_def)
    from play dc pc' ds ps rest r show ?thesis by simp
  qed
  have "in_play engine_19" "in_play engine_17" by (simp_all add: engine_19_def engine_17_def)
  with first second engine_19_reachable engine_17_reachable show ?thesis by blast
qed

text \<open>
  Claim C10. On a reachable engine in play, STICK returns, and \<^verbatim>\<open>get_hand_sum\<close> of the hand
  the dealer holds in the engine it leaves is at least 17 and at most 26.
\<close>

theorem dealer_total_after_stick:
  assumes "reachable b" and "in_play b"
  shows "\<exists>b' s r. play_action b STICK = Inr (b', s, r)
           \<and> 17 \<le> get_hand_sum (dealer_cards b') \<and> get_hand_sum (dealer_cards b') \<le> 26"
proof -
  have inv: "engine_inv b" using assms(1) by (rule reachable_inv)
  from stick_engine_draws [of b] have low: "17 \<le> get_hand_sum (dealer_cards (stick_engine b))"
    by auto
  have high: "get_hand_sum (dealer_cards (stick_engine b)) \<le> 26"
    using stick_engine_bound [of b] inv by (simp add: engine_inv_def dealer_sum_def)
  have two: "2 \<le> length (dealer_cards (stick_engine b))"
    using engine_inv_stick [OF inv] by (rule inv_dealer_two)
  show ?thesis
    unfolding play_stick [OF assms(2)] return_state_eq [OF two]
    using low high by simp
qed

text \<open>The dealer at 2 3 who draws a 2 and a King ends at 17.\<close>

theorem dealer_total_after_stick_witness:
  "reachable engine_19 \<and> in_play engine_19
   \<and> (\<exists>b' s r. play_action engine_19 STICK = Inr (b', s, r)
         \<and> map face (dealer_cards b') = [''2'', ''3'', ''2'', ''K'']
         \<and> get_hand_sum (dealer_cards b') = 17)"
proof -
  have ip: "in_play engine_19" by (simp add: engine_19_def)
  from dealer_total_after_stick [OF engine_19_reachable ip] obtain b' s r where
    play: "play_action engine_19 STICK = Inr (b', s, r)"
    and "17 \<le> get_hand_sum (dealer_cards b')" and "get_hand_sum (dealer_cards b') \<le> 26"
    by blast
  from play have dc: "dealer_cards b' =
      dealer_cards engine_19 @ [\<lparr>face = ''2'', value = 2\<rparr>, \<lparr>face = ''K'', value = 10\<rparr>]"
    unfolding stick_19 by auto
  then have "play_action engine_19 STICK = Inr (b', s, r)
      \<and> map face (dealer_cards b') = [''2'', ''3'', ''2'', ''K'']
      \<and> get_hand_sum (dealer_cards b') = 17"
    using play by (simp add: engine_19_def get_hand_sum_def)
  then have "\<exists>b' s r. play_action engine_19 STICK = Inr (b', s, r)
      \<and> map face (dealer_cards b') = [''2'', ''3'', ''2'', ''K'']
      \<and> get_hand_sum (dealer_cards b') = 17"
    by (intro exI)
  with engine_19_reachable ip show ?thesis by simp
qed

section \<open>The exposed state of reachable engines\<close>

text \<open>
  Claim C1 says that every reachable state has \<open>player_sum\<close> between 2 and 30. The engine
  lets a player at 21 hit again: on the deck that deals 10 9 to the player, 2 3 to the
  dealer and then 2 and K, the fresh engine is at 19, the first HIT takes it to 21 and
  leaves it in play, and the second HIT returns a state with \<open>player_sum = 31\<close>, which is
  the state of a reachable engine.
\<close>

theorem hit_on_21_gives_31:
  "Blackjack_init (example_deck [9, 8, 1, 2, 1, 12]) False = Inr engine_19
   \<and> play_action engine_19 HIT =
       Inr (engine_21,
            \<lparr>player_sum = 21, usable_ace = False, dealer_showing = 3, terminal = False\<rparr>, 0)
   \<and> play_action engine_21 HIT =
       Inr (engine_31,
            \<lparr>player_sum = 31, usable_ace = False, dealer_showing = 3, terminal = True\<rparr>, - 1)
   \<and> reachable engine_31
   \<and> state engine_31 =
       Inr \<lparr>player_sum = 31, usable_ace = False, dealer_showing = 3, terminal = True\<rparr>"
proof -
  have "state engine_31 =
       Inr \<lparr>player_sum = 31, usable_ace = False, dealer_showing = 3, terminal = True\<rparr>"
    by (simp add: engine_31_def engine_eval)
  then show ?thesis using engine_19_init hit_19 hit_21 engine_31_reachable by simp
qed

text \<open>
  What does hold of every reachable engine: its state can be read (no error),
  \<open>player_sum\<close> is \<^verbatim>\<open>get_hand_sum\<close> of the player's hand and lies between 4 and 31,
  \<open>dealer_showing\<close> is the value of the dealer's second card and lies between 1 and 10,
  and \<open>terminal\<close> is true exactly when \<open>in_play\<close> is false.
\<close>

theorem reachable_state_bounds:
  assumes "reachable b"
  shows "\<exists>s. state b = Inr s
           \<and> player_sum s = get_hand_sum (player_cards b)
           \<and> dealer_showing s = value (dealer_cards b ! 1)
           \<and> 4 \<le> player_sum s \<and> player_sum s \<le> 31
           \<and> 1 \<le> dealer_showing s \<and> dealer_showing s \<le> 10
           \<and> terminal s = (\<not> in_play b)"
proof -
  have inv: "engine_inv b" using assms by (rule reachable_inv)
  then have two: "2 \<le> length (dealer_cards b)" by (rule inv_dealer_two)
  have "dealer_cards b ! 1 \<in> set cards"
    using inv two by (auto simp: engine_inv_def)
  then have showing: "1 \<le> value (dealer_cards b ! 1) \<and> value (dealer_cards b ! 1) \<le> 10"
    by (intro deck_card_value deck_card_cards)
  have "deck_hand (player_cards b)" "2 \<le> length (player_cards b)"
    using inv by (simp_all add: engine_inv_def deck_hand_subset)
  then have low: "4 \<le> get_hand_sum (player_cards b)" by (rule hand_sum_lower)
  have high: "get_hand_sum (player_cards b) \<le> 31"
    using inv by (simp add: engine_inv_def Blackjack_player_sum_def)
  show ?thesis
    unfolding state_eq [OF two] using showing low high by simp
qed

theorem reachable_state_bounds_witness:
  "reachable engine_31
   \<and> (\<exists>s. state engine_31 = Inr s \<and> player_sum s = 31 \<and> dealer_showing s = 3 \<and> terminal s)"
proof -
  from reachable_state_bounds [OF engine_31_reachable] obtain s where
    "state engine_31 = Inr s" by blast
  then have "state engine_31 = Inr s \<and> player_sum s = 31 \<and> dealer_showing s = 3 \<and> terminal s"
    by (auto simp: engine_31_def engine_eval)
  with engine_31_reachable show ?thesis by blast
qed

section \<open>The enumeration of states\<close>

lemma inj_state_of: "inj state_of"
  by (auto simp: inj_on_def state_of_def)

lemma all_states_image:
  "all_states = state_of ` ({2..30} \<times> {False, True} \<times> {1..10} \<times> {False, True})"
  by (simp only: all_states_def state_of_def set_map set_product set_upto list.set)

lemma bool_cases: "{False, True} = (UNIV :: bool set)"
  by auto

text \<open>
  Claim C9. \<^verbatim>\<open>all_states\<close> is the set of all states whose \<open>player_sum\<close> is between 2 and 30
  and whose \<open>dealer_showing\<close> is between 1 and 10, the two flags being free; it has
  29 * 2 * 10 * 2 = 1160 elements.
\<close>

theorem all_states_product:
  "all_states =
     {s. 2 \<le> player_sum s \<and> player_sum s \<le> 30 \<and> 1 \<le> dealer_showing s \<and> dealer_showing s \<le> 10}
   \<and> card all_states = 1160"
proof
  show "all_states =
     {s. 2 \<le> player_sum s \<and> player_sum s \<le> 30 \<and> 1 \<le> dealer_showing s \<and> dealer_showing s \<le> 10}"
  proof (rule set_eqI)
    fix s :: BlackjackState
    have s: "s = state_of (player_sum s, usable_ace s, dealer_showing s, terminal s)"
      by (simp add: state_of_def)
    show "s \<in> all_states \<longleftrightarrow>
      s \<in> {s. 2 \<le> player_sum s \<and> player_sum s \<le> 30
               \<and> 1 \<le> dealer_showing s \<and> dealer_showing s \<le> 10}"
    proof
      assume "s \<in> all_states"
      then show "s \<in> {s. 2 \<le> player_sum s \<and> player_sum s \<le> 30
                         \<and> 1 \<le> dealer_showing s \<and> dealer_showing s \<le> 10}"
        by (auto simp: all_states_image state_of_def)
    next
      assume "s \<in> {s. 2 \<le> player_sum s \<and> player_sum s \<le> 30
                      \<and> 1 \<le> dealer_showing s \<and> dealer_showing s \<le> 10}"
      then have "(player_sum s, usable_ace s, dealer_showing s, terminal s)
          \<in> {2..30} \<times> {False, True} \<times> {1..10} \<times> {False, True}"
        by (simp add: bool_cases)
      then have "state_of (player_sum s, usable_ace s, dealer_showing s, terminal s)
          \<in> all_states"
        unfolding all_states_image by (rule imageI)
      with s show "s \<in> all_states" by simp
    qed
  qed
next
  have "card all_states
      = card ({2..30::int} \<times> {False, True} \<times> {1..10::int} \<times> {False, True})"
    unfolding all_states_image
    by (rule card_image) (rule inj_on_subset [OF inj_state_of subset_UNIV])
  also have "\<dots> = 1160" by (simp add: card_cartesian_product)
  finally show "card all_states = 1160" .
qed

end
